theory Spec2Isabelle
  imports Complex_Main "HOL-Library.AList"
begin

section \<open>The program timer of \<^verbatim>\<open>src/timer.py\<close>\<close>

text \<open>
  The embedding follows the two classes of \<^verbatim>\<open>timer.py\<close>. Every effect of the
  source is explicit:
  \<^item> \<^verbatim>\<open>time.time()\<close> is an argument: each operation receives the reading of the
    clock it makes (a report makes one reading per span that is still open);
  \<^item> \<^verbatim>\<open>print\<close> appends its argument to the field \<open>stdout\<close> of the state;
  \<^item> an exception is the left summand of the result.
  Clock readings are rationals (every finite float is one); the rounding of the float
  subtraction in \<^verbatim>\<open>Event.seconds\<close> is not modelled.
\<close>

subsection \<open>Values and errors\<close>

type_synonym time = rat

text \<open>What a method hands back to its caller: Python's \<^verbatim>\<open>None\<close> or an integer.\<close>

datatype pyval = PyNone | PyInt int

text \<open>
  The exceptions the timer can raise: the lookup \<^verbatim>\<open>self._events[i]\<close> of a missing key,
  and the \<^verbatim>\<open>Exception\<close> of \<^verbatim>\<open>end()\<close> ("called when there are no prior open events").
\<close>

datatype error = KeyError int | NoPriorOpenEvents

subsection \<open>Event\<close>

record Event =
  name :: string
  uid :: int
  hrchy :: int
  pid :: "int option"
  start_time :: time
  end_time :: "time option"

definition Event_init :: "time \<Rightarrow> string \<Rightarrow> int \<Rightarrow> int \<Rightarrow> int option \<Rightarrow> Event" where
  "Event_init now nm u h p =
     \<lparr>name = nm, uid = u, hrchy = h, pid = p, start_time = now, end_time = None\<rparr>"

definition Event_end :: "time \<Rightarrow> Event \<Rightarrow> Event" where
  "Event_end now e = e\<lparr>end_time := Some now\<rparr>"

definition is_open :: "Event \<Rightarrow> bool" where
  "is_open e = (if end_time e = None then True else False)"

definition seconds :: "time \<Rightarrow> Event \<Rightarrow> time" where
  "seconds now e =
     (case end_time e of None \<Rightarrow> now - start_time e | Some t \<Rightarrow> t - start_time e)"

subsection \<open>ProgramTimer\<close>

text \<open>
  \<open>events\<close> is the dict \<^verbatim>\<open>_events\<close>, as an association list in insertion order:
  \<open>map_of\<close> is the lookup, \<open>AList.update\<close> the assignment \<^verbatim>\<open>d[k] = v\<close>, the length
  is \<^verbatim>\<open>len(d)\<close>. \<open>errors\<close> is the data frame of the error log, one triple
  (Method, DataID, ErrDescription) per row, in row order.
\<close>

type_synonym 'd err_row = "string \<times> 'd \<times> string"

record 'd ProgramTimer =
  events :: "(int \<times> Event) list"
  ud_start :: bool
  ud_end :: bool
  default_header :: string
  start_ud_post_txt :: string
  start_ud_pre_txt :: string
  end_ud_post_txt :: string
  end_ud_pre_txt :: string
  errors :: "'d err_row list"
  stdout :: "string list"

definition ProgramTimer_init :: "bool \<Rightarrow> bool \<Rightarrow> 'd ProgramTimer" where
  "ProgramTimer_init us ue =
     \<lparr>events = [], ud_start = us, ud_end = ue,
      default_header = ''Program Execution Summary'',
      start_ud_post_txt = ''...'', start_ud_pre_txt = ''Started: '',
      end_ud_post_txt = ''.'', end_ud_pre_txt = ''Finished: '',
      errors = [], stdout = []\<rparr>"

definition event_count :: "'d ProgramTimer \<Rightarrow> int" where
  "event_count t = int (length (events t))"

text \<open>The loop of \<^verbatim>\<open>__prior_open_event_id\<close> over \<^verbatim>\<open>range(count, 0, -1)\<close>.\<close>

fun scan_open :: "(int \<times> Event) list \<Rightarrow> int list \<Rightarrow> error + int option" where
  "scan_open evs [] = Inr None"
| "scan_open evs (i # js) =
     (case map_of evs i of
        None \<Rightarrow> Inl (KeyError i)
      | Some e \<Rightarrow> if is_open e then Inr (Some (uid e)) else scan_open evs js)"

definition prior_open_event_id :: "'d ProgramTimer \<Rightarrow> error + int option" where
  "prior_open_event_id t =
     (if event_count t = 0 then Inr None
      else scan_open (events t) (rev [1..event_count t]))"

definition print :: "string \<Rightarrow> 'd ProgramTimer \<Rightarrow> 'd ProgramTimer" where
  "print msg t = t\<lparr>stdout := stdout t @ [msg]\<rparr>"

text \<open>\<^verbatim>\<open>start\<close> has no \<^verbatim>\<open>return\<close> statement: the caller receives \<^verbatim>\<open>None\<close>.\<close>

definition start :: "string \<Rightarrow> time \<Rightarrow> 'd ProgramTimer \<Rightarrow> error + (pyval \<times> 'd ProgramTimer)" where
  "start nm now t =
     (let new_id = event_count t + 1 in
      case prior_open_event_id t of
        Inl err \<Rightarrow> Inl err
      | Inr prior_open_id \<Rightarrow>
          (case (case prior_open_id of
                   None \<Rightarrow> Inr 1
                 | Some p \<Rightarrow>
                     (case map_of (events t) p of
                        None \<Rightarrow> Inl (KeyError p)
                      | Some parent \<Rightarrow> Inr (hrchy parent + 1))) of
             Inl err \<Rightarrow> Inl err
           | Inr h \<Rightarrow>
               (let event = Event_init now nm new_id h prior_open_id;
                    t1 = t\<lparr>events := AList.update new_id event (events t)\<rparr>
                in if ud_start t1
                   then Inr (PyNone, print (start_ud_pre_txt t1 @ nm @ start_ud_post_txt t1) t1)
                   else Inr (PyNone, t1))))"

definition ProgramTimer_end :: "time \<Rightarrow> 'd ProgramTimer \<Rightarrow> error + 'd ProgramTimer" where
  "ProgramTimer_end now t =
     (case prior_open_event_id t of
        Inl err \<Rightarrow> Inl err
      | Inr None \<Rightarrow> Inl NoPriorOpenEvents
      | Inr (Some prior_open_id) \<Rightarrow>
          (case map_of (events t) prior_open_id of
             None \<Rightarrow> Inl (KeyError prior_open_id)
           | Some e \<Rightarrow>
               (let t1 = t\<lparr>events := AList.update prior_open_id (Event_end now e) (events t)\<rparr>
                in if ud_end t1
                   then Inr (print (end_ud_pre_txt t1 @ name e @ end_ud_post_txt t1) t1)
                   else Inr t1)))"

definition log_err :: "string \<Rightarrow> 'd \<Rightarrow> string \<Rightarrow> 'd ProgramTimer \<Rightarrow> 'd ProgramTimer" where
  "log_err method data_id info t = t\<lparr>errors := errors t @ [(method, data_id, info)]\<rparr>"

definition errors_were_logged :: "'d ProgramTimer \<Rightarrow> bool" where
  "errors_were_logged t = (\<not> (errors t = []))"

subsection \<open>The summary\<close>

text \<open>
  Python's \<^verbatim>\<open>'{0:.1f}'.format(x)\<close>: the decimal expansion of \<open>x\<close> rounded to one
  fractional digit, ties to the even neighbour, with the sign of \<open>x\<close> kept.
\<close>

definition round_half_even :: "rat \<Rightarrow> int" where
  "round_half_even x =
     (let f = \<lfloor>x\<rfloor>; d = x - of_int f in
      if d < 1 / 2 then f else if 1 / 2 < d then f + 1
      else if even f then f else f + 1)"

definition digit_char :: "nat \<Rightarrow> char" where
  "digit_char d = ''0123456789'' ! d"

function str_nat :: "nat \<Rightarrow> string" where
  "str_nat n = (if n < 10 then [digit_char n] else str_nat (n div 10) @ [digit_char (n mod 10)])"
  by pat_completeness auto
termination
  by (relation "measure (\<lambda>n. n)") auto

declare str_nat.simps [simp del]

definition format_1f :: "rat \<Rightarrow> string" where
  "format_1f x =
     (let r = nat (round_half_even (\<bar>x\<bar> * 10)) in
      (if x < 0 then ''-'' else []) @ str_nat (r div 10) @ ''.'' @ [digit_char (r mod 10)])"

definition create_event_summary :: "time \<Rightarrow> Event \<Rightarrow> string" where
  "create_event_summary now event =
     (let blank_space = concat (replicate (nat (hrchy event - 1)) ''   '');
          summary = blank_space @ name event
      in summary @ '': '' @ format_1f (seconds now event) @ ''s'')"

definition SECTION_DIVIDE :: string where
  "SECTION_DIVIDE = ''*************************************''"

definition nl :: string where
  "nl = [CHR 0x0A]"

text \<open>The loop of \<^verbatim>\<open>print_summary\<close> over \<^verbatim>\<open>range(1, count + 1, 1)\<close>.\<close>

fun summary_loop :: "(int \<times> Event) list \<Rightarrow> (int \<Rightarrow> time) \<Rightarrow> int list \<Rightarrow> string \<Rightarrow> error + string" where
  "summary_loop evs clk [] summary = Inr summary"
| "summary_loop evs clk (i # js) summary =
     (case map_of evs i of
        None \<Rightarrow> Inl (KeyError i)
      | Some e \<Rightarrow> summary_loop evs clk js (summary @ create_event_summary (clk i) e @ nl))"

text \<open>
  \<open>to_string\<close> stands for pandas' \<^verbatim>\<open>DataFrame.to_string(index=False)\<close> on the error
  log; \<open>clk i\<close> is the clock reading made while the span with key \<open>i\<close> is rendered.
\<close>

definition print_summary ::
  "('d err_row list \<Rightarrow> string) \<Rightarrow> string option \<Rightarrow> (int \<Rightarrow> time) \<Rightarrow> 'd ProgramTimer
     \<Rightarrow> error + 'd ProgramTimer" where
  "print_summary to_string header clk t =
     (let summary = nl @ SECTION_DIVIDE @ nl;
          header = (case header of None \<Rightarrow> default_header t | Some h \<Rightarrow> h);
          summary = summary @ header @ nl @ nl
      in case summary_loop (events t) clk [1..event_count t] summary of
           Inl err \<Rightarrow> Inl err
         | Inr summary \<Rightarrow>
             (let summary =
                    (if errors_were_logged t
                     then summary @ SECTION_DIVIDE @ nl @ ''Exceptions'' @ nl @ nl
                            @ to_string (errors t)
                     else summary);
                  summary = summary @ nl @ SECTION_DIVIDE @ nl
              in Inr (print summary (t\<lparr>events := []\<rparr>))))"

subsection \<open>Call sequences\<close>

datatype 'd call =
    Start string time
  | End time
  | PrintSummary "string option" "int \<Rightarrow> time"
  | LogErr string 'd string

fun step :: "('d err_row list \<Rightarrow> string) \<Rightarrow> 'd call \<Rightarrow> 'd ProgramTimer \<Rightarrow> error + 'd ProgramTimer" where
  "step ts (Start nm now) t = (case start nm now t of Inl err \<Rightarrow> Inl err | Inr r \<Rightarrow> Inr (snd r))"
| "step ts (End now) t = ProgramTimer_end now t"
| "step ts (PrintSummary header clk) t = print_summary ts header clk t"
| "step ts (LogErr method data_id info) t = Inr (log_err method data_id info t)"

text \<open>A call sequence runs until the first exception.\<close>

fun run :: "('d err_row list \<Rightarrow> string) \<Rightarrow> 'd call list \<Rightarrow> 'd ProgramTimer \<Rightarrow> error + 'd ProgramTimer" where
  "run ts [] t = Inr t"
| "run ts (c # cs) t = (case step ts c t of Inl err \<Rightarrow> Inl err | Inr t' \<Rightarrow> run ts cs t')"

subsection \<open>Invariants and reference functions\<close>

text \<open>
  The shape of the registry that the scans rely on: the keys are \<open>1..n\<close> in insertion
  order, and every key maps to the event whose \<open>uid\<close> is that key.
\<close>

definition registry_ok :: "(int \<times> Event) list \<Rightarrow> bool" where
  "registry_ok evs = (map fst evs = [1..int (length evs)] \<and> (\<forall>(k, e) \<in> set evs. uid e = k))"

text \<open>
  The key of the open event that was inserted last, if there is one.
\<close>

definition last_open :: "(int \<times> Event) list \<Rightarrow> int option" where
  "last_open evs =
     (let os = filter (\<lambda>p. is_open (snd p)) evs
      in if os = [] then None else Some (fst (last os)))"

text \<open>
  A sequence of \<^verbatim>\<open>start\<close>/\<^verbatim>\<open>end\<close> calls is well nested, with \<open>d\<close> spans open before it, when
  every \<^verbatim>\<open>end\<close> finds an unmatched earlier \<^verbatim>\<open>start\<close>.
\<close>

fun well_nested :: "'d call list \<Rightarrow> nat \<Rightarrow> bool" where
  "well_nested [] d = True"
| "well_nested (Start nm now # cs) d = well_nested cs (Suc d)"
| "well_nested (End now # cs) d = (0 < d \<and> well_nested cs (d - 1))"
| "well_nested (_ # cs) d = False"

text \<open>
  The nesting depth of each \<^verbatim>\<open>start\<close> of a call sequence, read off the sequence itself:
  one more than the number \<open>d\<close> of earlier starts that are still unmatched.
\<close>

fun true_depths :: "'d call list \<Rightarrow> nat \<Rightarrow> int list" where
  "true_depths [] d = []"
| "true_depths (Start nm now # cs) d = (1 + int d) # true_depths cs (Suc d)"
| "true_depths (End now # cs) d = true_depths cs (d - 1)"
| "true_depths (_ # cs) d = true_depths cs d"

text \<open>
  The \<open>hrchy\<close> values of the open events, in insertion order.
\<close>

definition open_hrchys :: "(int \<times> Event) list \<Rightarrow> int list" where
  "open_hrchys evs = map (\<lambda>p. hrchy (snd p)) (filter (\<lambda>p. is_open (snd p)) evs)"

text \<open>
  The number of spans created since the last \<^verbatim>\<open>print_summary\<close>, \<open>n\<close> being the number
  before the sequence.
\<close>

fun spans_since_report :: "'d call list \<Rightarrow> nat \<Rightarrow> nat" where
  "spans_since_report [] n = n"
| "spans_since_report (Start nm now # cs) n = spans_since_report cs (Suc n)"
| "spans_since_report (PrintSummary header clk # cs) n = spans_since_report cs 0"
| "spans_since_report (_ # cs) n = spans_since_report cs n"

text \<open>
  The rows that the \<^verbatim>\<open>log_err\<close> calls of a sequence record, in call order.
\<close>

fun logged :: "'d call list \<Rightarrow> 'd err_row list" where
  "logged [] = []"
| "logged (LogErr method data_id info # cs) = (method, data_id, info) # logged cs"
| "logged (_ # cs) = logged cs"

subsection \<open>Example data\<close>

text \<open>
  Concrete timers, call sequences, a constant clock and a plain row renderer, on which the
  theorems below are instantiated.
\<close>

definition example_to_string :: "string err_row list \<Rightarrow> string" where
  "example_to_string errs = concat (map (\<lambda>(m, d, i). m @ '' '' @ d @ '' '' @ i @ nl) errs)"

definition example_clock :: "int \<Rightarrow> time" where
  "example_clock i = 9"

definition example_two_open :: "string ProgramTimer" where
  "example_two_open = (ProgramTimer_init False True)
     \<lparr>events := [(1, Event_init 0 ''outer'' 1 1 None),
                 (2, Event_init 1 ''inner'' 2 2 (Some 1)),
                 (3, Event_end 3 (Event_init 2 ''leaf'' 3 3 (Some 2)))]\<rparr>"

definition example_last_closed :: "string ProgramTimer" where
  "example_last_closed = (ProgramTimer_init False True)
     \<lparr>events := [(1, Event_init 0 ''outer'' 1 1 None),
                 (2, Event_end 2 (Event_init 1 ''inner'' 2 2 (Some 1)))],
      errors := [(''parse'', ''row42'', ''bad id'')]\<rparr>"

definition example_nested :: "string call list" where
  "example_nested =
     [Start ''outer'' 0, Start ''inner'' 1, End 2, Start ''inner2'' 3, End 4, End 5]"

definition example_cycle :: "string call list" where
  "example_cycle =
     [LogErr ''parse'' ''row42'' ''bad id'', Start ''load'' 0, End 1,
      PrintSummary (Some ''Run'') example_clock, LogErr ''_get_price'' ''abc'' ''price'',
      Start ''query'' 2, Start ''save'' 3]"

definition example_closed_first :: "string call list" where
  "example_closed_first = [Start ''A'' 0, End 1]"

definition example_later_calls :: "string call list" where
  "example_later_calls = [Start ''B'' 2, Start ''C'' 3, End 4, LogErr ''m'' ''x'' ''d'']"

section \<open>Auxiliary facts\<close>

lemma upto_snoc_nat: "[1..int (Suc m)] = [1..int m] @ [int m + 1]"
  by (simp add: upto_rec2 add.commute)

lemma registry_ok_distinct: "registry_ok evs \<Longrightarrow> distinct (map fst evs)"
  by (simp add: registry_ok_def)

lemma registry_ok_fst_nth:
  assumes "registry_ok evs" "m < length evs"
  shows "fst (evs ! m) = int m + 1"
proof -
  have "fst (evs ! m) = map fst evs ! m" using assms by simp
  also have "\<dots> = [1..int (length evs)] ! m" using assms by (simp add: registry_ok_def)
  also have "\<dots> = 1 + int m" using assms by (simp add: nth_upto)
  finally show ?thesis by simp
qed

lemma registry_ok_lookup:
  assumes "registry_ok evs" "m < length evs"
  shows "map_of evs (int m + 1) = Some (snd (evs ! m))"
proof -
  have "evs ! m \<in> set evs" using assms by simp
  then have "(int m + 1, snd (evs ! m)) \<in> set evs"
    using registry_ok_fst_nth [OF assms] by (metis prod.collapse)
  then show ?thesis using registry_ok_distinct [OF assms(1)] by simp
qed

lemma registry_ok_uid:
  assumes "registry_ok evs" "m < length evs"
  shows "uid (snd (evs ! m)) = int m + 1"
proof -
  have "evs ! m \<in> set evs" using assms by simp
  then have "uid (snd (evs ! m)) = fst (evs ! m)"
    using assms(1) by (auto simp: registry_ok_def)
  then show ?thesis using registry_ok_fst_nth [OF assms] by simp
qed

lemma last_open_snoc:
  "last_open (evs @ [p]) = (if is_open (snd p) then Some (fst p) else last_open evs)"
  by (simp add: last_open_def)

lemma scan_open_take:
  assumes "registry_ok evs"
  shows "m \<le> length evs \<Longrightarrow> scan_open evs (rev [1..int m]) = Inr (last_open (take m evs))"
proof (induction m)
  case 0
  then show ?case by (simp add: last_open_def)
next
  case (Suc m)
  then have m: "m < length evs" by simp
  have "take (Suc m) evs = take m evs @ [evs ! m]"
    using m by (simp add: take_Suc_conv_app_nth)
  then show ?case
    using Suc m registry_ok_lookup [OF assms m] registry_ok_uid [OF assms m]
      registry_ok_fst_nth [OF assms m]
    by (simp add: upto_snoc_nat last_open_snoc del: of_nat_Suc)
qed

lemma prior_open_event_id_ok:
  "registry_ok (events t) \<Longrightarrow> prior_open_event_id t = Inr (last_open (events t))"
  using scan_open_take [of "events t" "length (events t)"]
  by (auto simp: prior_open_event_id_def event_count_def last_open_def)

lemma update_fresh: "k \<notin> fst ` set al \<Longrightarrow> AList.update k v al = al @ [(k, v)]"
  by (induction al) auto

lemma update_middle:
  "k \<notin> fst ` set ys \<Longrightarrow> AList.update k v (ys @ (k, w) # zs) = ys @ (k, v) # zs"
  by (induction ys) auto

lemma map_of_middle:
  "k \<notin> fst ` set ys \<Longrightarrow> map_of (ys @ (k, w) # zs) k = Some w"
  by (induction ys) auto

lemma registry_ok_fresh: "registry_ok evs \<Longrightarrow> int (length evs) + 1 \<notin> fst ` set evs"
proof -
  assume "registry_ok evs"
  then have "fst ` set evs = set [1..int (length evs)]"
    by (metis registry_ok_def set_map)
  then show ?thesis by simp
qed

lemma registry_ok_snoc:
  "registry_ok evs \<Longrightarrow> uid e = int (length evs) + 1 \<Longrightarrow>
   registry_ok (evs @ [(int (length evs) + 1, e)])"
  by (auto simp: registry_ok_def upto_rec2 add.commute)

lemma registry_ok_middle:
  "registry_ok (ys @ (k, e) # zs) \<Longrightarrow> uid e' = uid e \<Longrightarrow> registry_ok (ys @ (k, e') # zs)"
  by (auto simp: registry_ok_def)

lemma registry_ok_middle_fresh:
  "registry_ok (ys @ (k, e) # zs) \<Longrightarrow> k \<notin> fst ` set ys"
  using registry_ok_distinct [of "ys @ (k, e) # zs"] by auto

lemma last_open_None: "last_open evs = None \<longleftrightarrow> (\<forall>p \<in> set evs. \<not> is_open (snd p))"
  by (simp add: last_open_def filter_empty_conv)

lemma last_open_Some:
  assumes "last_open evs = Some k"
  shows "\<exists>ys e zs. evs = ys @ (k, e) # zs \<and> is_open e \<and> (\<forall>p \<in> set zs. \<not> is_open (snd p))"
proof -
  from assms have "\<exists>p \<in> set evs. is_open (snd p)"
    using last_open_None [of evs] by auto
  then obtain ys p zs where d: "evs = ys @ p # zs" "is_open (snd p)"
      "\<forall>q \<in> set zs. \<not> is_open (snd q)"
    using split_list_last_prop [of evs "\<lambda>p. is_open (snd p)"] by blast
  then have "last_open evs = Some (fst p)"
    by (simp add: last_open_def)
  with assms have "fst p = k" by simp
  with d show ?thesis by (metis prod.collapse)
qed

lemma last_open_middle:
  "is_open e \<Longrightarrow> \<forall>p \<in> set zs. \<not> is_open (snd p) \<Longrightarrow> last_open (ys @ (k, e) # zs) = Some k"
  by (simp add: last_open_def filter_empty_conv [THEN iffD2])

lemma start_none_open:
  assumes ok: "registry_ok (events t)" and cl: "last_open (events t) = None"
  shows "\<exists>t'. start nm now t = Inr (PyNone, t') \<and>
           events t' = events t @ [(event_count t + 1, Event_init now nm (event_count t + 1) 1 None)] \<and>
           errors t' = errors t"
  using prior_open_event_id_ok [OF ok] cl registry_ok_fresh [OF ok]
  by (simp add: start_def Let_def event_count_def print_def update_fresh)

lemma start_some_open:
  assumes ok: "registry_ok (events t)" and ev: "events t = ys @ (k, e) # zs"
    and op: "is_open e" "\<forall>p \<in> set zs. \<not> is_open (snd p)"
  shows "\<exists>t'. start nm now t = Inr (PyNone, t') \<and>
           events t' = events t @
             [(event_count t + 1, Event_init now nm (event_count t + 1) (hrchy e + 1) (Some k))] \<and>
           errors t' = errors t"
proof -
  have fr: "k \<notin> fst ` set ys" using ok ev registry_ok_middle_fresh by metis
  have lo: "last_open (events t) = Some k" using ev op by (simp add: last_open_middle)
  have lk: "map_of (events t) k = Some e" using map_of_middle [OF fr] ev by metis
  show ?thesis
    using prior_open_event_id_ok [OF ok] lo lk registry_ok_fresh [OF ok]
    by (simp add: start_def Let_def event_count_def print_def update_fresh)
qed

lemma end_none_open:
  assumes ok: "registry_ok (events t)" and cl: "last_open (events t) = None"
  shows "ProgramTimer_end now t = Inl NoPriorOpenEvents"
  using prior_open_event_id_ok [OF ok] cl by (simp add: ProgramTimer_end_def)

lemma end_some_open:
  assumes ok: "registry_ok (events t)" and ev: "events t = ys @ (k, e) # zs"
    and op: "is_open e" "\<forall>p \<in> set zs. \<not> is_open (snd p)"
  shows "\<exists>t'. ProgramTimer_end now t = Inr t' \<and>
           events t' = ys @ (k, Event_end now e) # zs \<and> errors t' = errors t"
proof -
  have fr: "k \<notin> fst ` set ys" using ok ev registry_ok_middle_fresh by metis
  have lo: "last_open (events t) = Some k" using ev op by (simp add: last_open_middle)
  have lk: "map_of (events t) k = Some e" using map_of_middle [OF fr] ev by metis
  show ?thesis
    using prior_open_event_id_ok [OF ok] lo lk fr ev
    by (simp add: ProgramTimer_end_def Let_def print_def update_middle)
qed

lemma summary_loop_sub:
  assumes "distinct (map fst evs)"
  shows "set ps \<subseteq> set evs \<Longrightarrow>
    summary_loop evs clk (map fst ps) acc =
      Inr (acc @ concat (map (\<lambda>(k, e). create_event_summary (clk k) e @ nl) ps))"
proof (induction ps arbitrary: acc)
  case Nil
  then show ?case by simp
next
  case (Cons p ps)
  obtain k e where p: "p = (k, e)" by (cases p)
  with Cons.prems have "map_of evs k = Some e" using assms by simp
  with Cons p show ?case by simp
qed

lemma summary_loop_ok:
  assumes "registry_ok evs"
  shows "summary_loop evs clk [1..int (length evs)] acc =
      Inr (acc @ concat (map (\<lambda>(k, e). create_event_summary (clk k) e @ nl) evs))"
  using summary_loop_sub [OF registry_ok_distinct [OF assms], of evs clk acc] assms
  by (simp add: registry_ok_def)

lemma print_summary_ok:
  assumes "registry_ok (events t)"
  shows "print_summary ts header clk t =
    Inr (print (nl @ SECTION_DIVIDE @ nl @ (case header of None \<Rightarrow> default_header t | Some h \<Rightarrow> h)
                 @ nl @ nl
                 @ concat (map (\<lambda>(k, e). create_event_summary (clk k) e @ nl) (events t))
                 @ (if errors t = [] then []
                    else SECTION_DIVIDE @ nl @ ''Exceptions'' @ nl @ nl @ ts (errors t))
                 @ nl @ SECTION_DIVIDE @ nl)
           (t\<lparr>events := []\<rparr>))"
  using summary_loop_ok [OF assms]
  by (simp add: print_summary_def Let_def event_count_def errors_were_logged_def)




lemma open_hrchys_middle:
  "is_open e \<Longrightarrow> \<forall>p \<in> set zs. \<not> is_open (snd p) \<Longrightarrow>
   open_hrchys (ys @ (k, e) # zs) = open_hrchys ys @ [hrchy e]"
  by (simp add: open_hrchys_def filter_empty_conv [THEN iffD2])

lemma open_hrchys_closed:
  "\<not> is_open e' \<Longrightarrow> \<forall>p \<in> set zs. \<not> is_open (snd p) \<Longrightarrow>
   open_hrchys (ys @ (k, e') # zs) = open_hrchys ys"
  by (simp add: open_hrchys_def filter_empty_conv [THEN iffD2])

lemma open_hrchys_Nil: "open_hrchys evs = [] \<longleftrightarrow> last_open evs = None"
  by (simp add: open_hrchys_def last_open_def Let_def)

lemma Event_end_closed [simp]: "\<not> is_open (Event_end now e)"
  by (simp add: is_open_def Event_end_def)

lemma Event_end_uid [simp]: "uid (Event_end now e) = uid e"
  by (simp add: Event_end_def)

lemma Event_end_hrchy [simp]: "hrchy (Event_end now e) = hrchy e"
  by (simp add: Event_end_def)

lemma Event_init_sel [simp]:
  "is_open (Event_init now nm u h p)" "uid (Event_init now nm u h p) = u"
  "hrchy (Event_init now nm u h p) = h" "name (Event_init now nm u h p) = nm"
  "pid (Event_init now nm u h p) = p" "start_time (Event_init now nm u h p) = now"
  by (simp_all add: is_open_def Event_init_def)

lemma start_stack:
  assumes ok: "registry_ok (events t)" and st: "open_hrchys (events t) = [1..int d]"
  shows "\<exists>t'. start nm now t = Inr (PyNone, t') \<and> registry_ok (events t') \<and>
           open_hrchys (events t') = [1..int (Suc d)] \<and>
           map (\<lambda>p. hrchy (snd p)) (events t') = map (\<lambda>p. hrchy (snd p)) (events t) @ [1 + int d]"
proof (cases "last_open (events t)")
  case None
  then have d: "d = 0" using st open_hrchys_Nil [of "events t"] by (cases d) (auto simp: upto_rec1)
  from start_none_open [OF ok None, of nm now] obtain t' where
    t': "start nm now t = Inr (PyNone, t')"
      "events t' = events t @ [(event_count t + 1, Event_init now nm (event_count t + 1) 1 None)]"
    by blast
  have "registry_ok (events t')"
    using registry_ok_snoc [OF ok, of "Event_init now nm (event_count t + 1) 1 None"] t'(2)
    by (simp add: event_count_def)
  moreover have "open_hrchys (events t') = [1..int (Suc d)]"
    using t'(2) st d by (simp add: open_hrchys_def)
  ultimately show ?thesis using t' d by simp
next
  case (Some k)
  then obtain ys e zs where dc: "events t = ys @ (k, e) # zs" "is_open e"
      "\<forall>p \<in> set zs. \<not> is_open (snd p)"
    using last_open_Some by blast
  have oh: "open_hrchys ys @ [hrchy e] = [1..int d]"
    using open_hrchys_middle [OF dc(2,3)] dc(1) st by metis
  then have "[1..int d] \<noteq> []" by (metis snoc_eq_iff_butlast)
  then have dpos: "0 < d" by (cases d) auto
  then have "[1..int d] = [1..int d - 1] @ [int d]" by (simp add: upto_rec2)
  with oh have he: "hrchy e = int d" by simp
  from start_some_open [OF ok dc, of nm now] obtain t' where
    t': "start nm now t = Inr (PyNone, t')"
      "events t' = events t @
         [(event_count t + 1, Event_init now nm (event_count t + 1) (hrchy e + 1) (Some k))]"
    by blast
  have "registry_ok (events t')"
    using registry_ok_snoc [OF ok, of "Event_init now nm (event_count t + 1) (hrchy e + 1) (Some k)"] t'(2)
    by (simp add: event_count_def)
  moreover have "open_hrchys (events t') = open_hrchys (events t) @ [hrchy e + 1]"
    using t'(2) by (simp add: open_hrchys_def)
  then have "open_hrchys (events t') = [1..int (Suc d)]"
    using st he by (simp add: upto_rec2 add.commute)
  ultimately show ?thesis using t' he by (simp add: add.commute)
qed

lemma end_stack:
  assumes ok: "registry_ok (events t)" and st: "open_hrchys (events t) = [1..int d]"
    and dpos: "0 < d"
  shows "\<exists>t'. ProgramTimer_end now t = Inr t' \<and> registry_ok (events t') \<and>
           open_hrchys (events t') = [1..int (d - 1)] \<and>
           map (\<lambda>p. hrchy (snd p)) (events t') = map (\<lambda>p. hrchy (snd p)) (events t)"
proof -
  have "open_hrchys (events t) \<noteq> []" using st dpos by simp
  then obtain k where lo: "last_open (events t) = Some k"
    using open_hrchys_Nil [of "events t"] by auto
  then obtain ys e zs where dc: "events t = ys @ (k, e) # zs" "is_open e"
      "\<forall>p \<in> set zs. \<not> is_open (snd p)"
    using last_open_Some by blast
  have oh: "open_hrchys ys @ [hrchy e] = [1..int d]"
    using open_hrchys_middle [OF dc(2,3)] dc(1) st by metis
  have "[1..int d] = [1..int d - 1] @ [int d]" using dpos by (simp add: upto_rec2)
  with oh have ys: "open_hrchys ys = [1..int d - 1]" by simp
  from end_some_open [OF ok dc, of now] obtain t' where
    t': "ProgramTimer_end now t = Inr t'" "events t' = ys @ (k, Event_end now e) # zs"
    by blast
  have "registry_ok (events t')"
    using registry_ok_middle [of ys k e zs "Event_end now e"] ok dc(1) t'(2) by simp
  moreover have "open_hrchys (events t') = [1..int (d - 1)]"
    using open_hrchys_closed [OF Event_end_closed dc(3)] t'(2) ys dpos
    by (simp add: of_nat_diff)
  ultimately show ?thesis using t' dc(1) by simp
qed

lemma run_stack:
  "well_nested cs d \<Longrightarrow> registry_ok (events t) \<Longrightarrow> open_hrchys (events t) = [1..int d] \<Longrightarrow>
   \<exists>t'. run ts cs t = Inr t' \<and>
     map (\<lambda>p. hrchy (snd p)) (events t') = map (\<lambda>p. hrchy (snd p)) (events t) @ true_depths cs d"
proof (induction cs d arbitrary: t rule: well_nested.induct)
  case (1 d)
  then show ?case by simp
next
  case (2 nm now cs d)
  from start_stack [OF "2.prems"(2,3), of nm now] obtain t1 where
    t1: "start nm now t = Inr (PyNone, t1)" "registry_ok (events t1)"
      "open_hrchys (events t1) = [1..int (Suc d)]"
      "map (\<lambda>p. hrchy (snd p)) (events t1) = map (\<lambda>p. hrchy (snd p)) (events t) @ [1 + int d]"
    by blast
  from "2.IH" [OF _ t1(2,3)] "2.prems"(1) obtain t' where
    "run ts cs t1 = Inr t'"
    "map (\<lambda>p. hrchy (snd p)) (events t') = map (\<lambda>p. hrchy (snd p)) (events t1) @ true_depths cs (Suc d)"
    by auto
  then show ?case using t1(1,4) by simp
next
  case (3 now cs d)
  then have dpos: "0 < d" by simp
  from end_stack [OF "3.prems"(2,3) dpos, of now] obtain t1 where
    t1: "ProgramTimer_end now t = Inr t1" "registry_ok (events t1)"
      "open_hrchys (events t1) = [1..int (d - 1)]"
      "map (\<lambda>p. hrchy (snd p)) (events t1) = map (\<lambda>p. hrchy (snd p)) (events t)"
    by blast
  from "3.IH" [OF _ t1(2,3)] "3.prems"(1) obtain t' where
    "run ts cs t1 = Inr t'"
    "map (\<lambda>p. hrchy (snd p)) (events t') = map (\<lambda>p. hrchy (snd p)) (events t1) @ true_depths cs (d - 1)"
    by auto
  then show ?case using t1(1,4) by simp
qed simp_all

lemma start_ok:
  assumes ok: "registry_ok (events t)"
  shows "\<exists>t' h. start nm now t = Inr (PyNone, t') \<and>
           events t' = events t @
             [(event_count t + 1, Event_init now nm (event_count t + 1) h (last_open (events t)))] \<and>
           errors t' = errors t"
proof (cases "last_open (events t)")
  case None
  then show ?thesis using start_none_open [OF ok None, of nm now] by auto
next
  case (Some k)
  then obtain ys e zs where dc: "events t = ys @ (k, e) # zs" "is_open e"
      "\<forall>p \<in> set zs. \<not> is_open (snd p)"
    using last_open_Some by blast
  then show ?thesis using start_some_open [OF ok dc, of nm now] Some by auto
qed

lemma end_ok:
  assumes ok: "registry_ok (events t)" and en: "ProgramTimer_end now t = Inr t'"
  shows "\<exists>ys k e zs. events t = ys @ (k, e) # zs \<and> is_open e \<and>
           (\<forall>p \<in> set zs. \<not> is_open (snd p)) \<and>
           events t' = ys @ (k, Event_end now e) # zs \<and> errors t' = errors t"
proof (cases "last_open (events t)")
  case None
  then show ?thesis using end_none_open [OF ok None, of now] en by simp
next
  case (Some k)
  then obtain ys e zs where dc: "events t = ys @ (k, e) # zs" "is_open e"
      "\<forall>p \<in> set zs. \<not> is_open (snd p)"
    using last_open_Some by blast
  then show ?thesis using end_some_open [OF ok dc, of now] en by auto
qed

lemma step_registry_ok:
  assumes ok: "registry_ok (events t)" and st: "step ts c t = Inr t'"
  shows "registry_ok (events t') \<and>
         length (events t') = spans_since_report [c] (length (events t)) \<and>
         errors t' = errors t @ logged [c]"
proof (cases c)
  case (Start nm now)
  from start_ok [OF ok, of nm now] obtain t1 h where
    t1: "start nm now t = Inr (PyNone, t1)"
      "events t1 = events t @
         [(event_count t + 1, Event_init now nm (event_count t + 1) h (last_open (events t)))]"
      "errors t1 = errors t"
    by blast
  then have "t' = t1" using st Start by simp
  then show ?thesis
    using t1 Start
      registry_ok_snoc [OF ok, of "Event_init now nm (event_count t + 1) h (last_open (events t))"]
    by (simp add: event_count_def)
next
  case (End now)
  then have "ProgramTimer_end now t = Inr t'" using st by simp
  from end_ok [OF ok this] obtain ys k e zs where
    dc: "events t = ys @ (k, e) # zs" "events t' = ys @ (k, Event_end now e) # zs"
      "errors t' = errors t"
    by blast
  then show ?thesis
    using End registry_ok_middle [of ys k e zs "Event_end now e"] ok by simp
next
  case (PrintSummary header clk)
  then show ?thesis using st print_summary_ok [OF ok, of ts header clk]
    by (auto simp: registry_ok_def print_def)
next
  case (LogErr meth data_id info)
  then show ?thesis using st ok by (auto simp: log_err_def)
qed

lemma spans_since_report_append:
  "spans_since_report (cs @ ds) n = spans_since_report ds (spans_since_report cs n)"
  by (induction cs n rule: spans_since_report.induct) simp_all

lemma logged_append: "logged (cs @ ds) = logged cs @ logged ds"
  by (induction cs rule: logged.induct) simp_all

lemma run_registry_ok:
  "registry_ok (events t) \<Longrightarrow> run ts cs t = Inr t' \<Longrightarrow>
   registry_ok (events t') \<and>
   length (events t') = spans_since_report cs (length (events t)) \<and>
   errors t' = errors t @ logged cs"
proof (induction cs arbitrary: t)
  case Nil
  then show ?case by simp
next
  case (Cons c cs)
  then obtain t1 where t1: "step ts c t = Inr t1" "run ts cs t1 = Inr t'"
    by (auto split: sum.splits)
  from step_registry_ok [OF Cons.prems(1) t1(1)] Cons.IH [OF _ t1(2)]
  show ?case
    using spans_since_report_append [of "[c]" cs] logged_append [of "[c]" cs] by simp
qed

lemma registry_ok_init: "registry_ok (events (ProgramTimer_init us ue))"
  by (simp add: registry_ok_def ProgramTimer_init_def)

lemma closed_kept_by_step:
  assumes ok: "registry_ok (events t)" and st: "step ts c t = Inr t'"
    and lk: "map_of (events t) k = Some e" and cl: "end_time e = Some x"
  shows "map_of (events t') k = Some e \<or> (\<exists>header clk. c = PrintSummary header clk \<and> events t' = [])"
proof (cases c)
  case (Start nm now)
  from start_ok [OF ok, of nm now] obtain t1 h where
    t1: "start nm now t = Inr (PyNone, t1)"
      "events t1 = events t @
         [(event_count t + 1, Event_init now nm (event_count t + 1) h (last_open (events t)))]"
    by blast
  then have "t' = t1" using st Start by simp
  then show ?thesis using t1 lk by (simp add: map_add_def)
next
  case (End now)
  then have "ProgramTimer_end now t = Inr t'" using st by simp
  from end_ok [OF ok this] obtain ys k0 e0 zs where
    dc: "events t = ys @ (k0, e0) # zs" "is_open e0" "events t' = ys @ (k0, Event_end now e0) # zs"
    by blast
  have fr: "k0 \<notin> fst ` set ys" using ok dc(1) registry_ok_middle_fresh by metis
  have "map_of (events t) k0 = Some e0" using map_of_middle [OF fr] dc(1) by metis
  then have "k \<noteq> k0" using lk cl dc(2) by (auto simp: is_open_def)
  then have "map_of (events t') k = map_of (events t) k"
    using dc by (simp add: map_add_def split: option.splits)
  then show ?thesis using lk by simp
next
  case (PrintSummary header clk)
  then show ?thesis using st print_summary_ok [OF ok, of ts header clk]
    by (auto simp: print_def)
next
  case (LogErr meth data_id info)
  then show ?thesis using st lk by (auto simp: log_err_def)
qed

lemma registry_ok_keys_below:
  assumes ok: "registry_ok (ys @ (k, e) # zs)" and "p \<in> set ys"
  shows "fst p < k"
proof -
  have "sorted (map fst (ys @ (k, e) # zs))" using ok by (simp add: registry_ok_def)
  then have "fst p \<le> k" using assms(2) by (auto simp: sorted_append)
  moreover have "k \<notin> fst ` set ys" using registry_ok_middle_fresh [OF ok] .
  then have "fst p \<noteq> k" using assms(2) by auto
  ultimately show ?thesis by simp
qed

lemma registry_ok_key_range:
  assumes ok: "registry_ok evs" and "map_of evs k = Some e"
  shows "1 \<le> k \<and> k \<le> int (length evs)"
proof -
  have "k \<in> fst ` set evs" using assms(2) by (metis map_of_SomeD image_eqI fst_conv)
  then have "k \<in> set [1..int (length evs)]" using ok by (metis registry_ok_def set_map)
  then show ?thesis by simp
qed

lemma end_closes_largest:
  assumes ok: "registry_ok (events t)" and op: "\<exists>p \<in> set (events t). is_open (snd p)"
  shows "\<exists>k e t'. ProgramTimer_end now t = Inr t' \<and> map_of (events t) k = Some e \<and> is_open e \<and>
           (\<forall>k' e'. map_of (events t) k' = Some e' \<and> is_open e' \<longrightarrow> k' \<le> k) \<and>
           events t' = AList.update k (Event_end now e) (events t) \<and>
           map_of (events t') k = Some (Event_end now e) \<and> errors t' = errors t"
proof -
  from op obtain k where lo: "last_open (events t) = Some k"
    using last_open_None [of "events t"] by auto
  then obtain ys e zs where dc: "events t = ys @ (k, e) # zs" "is_open e"
      "\<forall>p \<in> set zs. \<not> is_open (snd p)"
    using last_open_Some by blast
  have ok': "registry_ok (ys @ (k, e) # zs)" using ok dc(1) by simp
  have fr: "k \<notin> fst ` set ys" using registry_ok_middle_fresh [OF ok'] .
  have lk: "map_of (events t) k = Some e" using map_of_middle [OF fr] dc(1) by metis
  from end_some_open [OF ok dc, of now] obtain t' where
    t': "ProgramTimer_end now t = Inr t'" "events t' = ys @ (k, Event_end now e) # zs"
      "errors t' = errors t"
    by blast
  have up: "events t' = AList.update k (Event_end now e) (events t)"
    using t'(2) dc(1) update_middle [OF fr] by metis
  have lk': "map_of (events t') k = Some (Event_end now e)"
    using map_of_middle [OF fr] t'(2) by metis
  have mx: "k' \<le> k" if "map_of (events t) k' = Some e'" "is_open e'" for k' e'
  proof -
    have "(k', e') \<in> set (events t)" using that(1) by (rule map_of_SomeD)
    then have "(k', e') \<in> set ys \<or> (k', e') = (k, e)"
      using dc(1,3) that(2) by auto
    then show ?thesis using registry_ok_keys_below [OF ok'] by force
  qed
  show ?thesis using t'(1,3) lk dc(2) mx up lk' by blast
qed

lemma end_closes_largest_fields:
  assumes ok: "registry_ok (events t)" and op: "\<exists>p \<in> set (events t). is_open (snd p)"
  shows "\<exists>k e t'. ProgramTimer_end now t = Inr t' \<and> map_of (events t) k = Some e \<and> is_open e \<and>
           (\<forall>k' e'. map_of (events t) k' = Some e' \<and> is_open e' \<longrightarrow> k' \<le> k) \<and>
           events t' = AList.update k (e\<lparr>end_time := Some now\<rparr>) (events t) \<and>
           map_of (events t') k = Some (e\<lparr>end_time := Some now\<rparr>) \<and>
           (\<forall>k'. k' \<noteq> k \<longrightarrow> map_of (events t') k' = map_of (events t) k') \<and>
           map fst (events t') = map fst (events t) \<and> errors t' = errors t"
proof -
  from end_closes_largest [OF ok op, of now] obtain k e t' where
    r: "ProgramTimer_end now t = Inr t'" "map_of (events t) k = Some e" "is_open e"
      "\<forall>k' e'. map_of (events t) k' = Some e' \<and> is_open e' \<longrightarrow> k' \<le> k"
      "events t' = AList.update k (Event_end now e) (events t)"
      "map_of (events t') k = Some (Event_end now e)" "errors t' = errors t"
    by blast
  have ee: "Event_end now e = e\<lparr>end_time := Some now\<rparr>" by (simp add: Event_end_def)
  have oth: "\<forall>k'. k' \<noteq> k \<longrightarrow> map_of (events t') k' = map_of (events t) k'"
    using r(5) by (simp add: update_conv')
  have "k \<in> fst ` set (events t)" using r(2) by (metis map_of_SomeD image_eqI fst_conv)
  then have keys: "map fst (events t') = map fst (events t)"
    using r(5) by (simp add: update_keys)
  show ?thesis using r(1,2,3,4,7) r(5,6) [unfolded ee] oth keys by blast
qed

lemma print_summary_result:
  assumes "print_summary ts header clk t = Inr t'"
  shows "events t' = [] \<and> errors t' = errors t \<and> default_header t' = default_header t"
  using assms by (auto simp: print_summary_def Let_def print_def split: sum.splits)

lemma step_errors:
  assumes "step ts c t = Inr t'"
  shows "errors t' = errors t @ logged [c]"
proof (cases c)
  case (Start nm now)
  then show ?thesis using assms
    by (auto simp: start_def Let_def print_def split: sum.splits option.splits if_splits)
next
  case (End now)
  then show ?thesis using assms
    by (auto simp: ProgramTimer_end_def Let_def print_def split: sum.splits option.splits if_splits)
next
  case (PrintSummary header clk)
  then show ?thesis using assms print_summary_result [of ts header clk t t'] by simp
next
  case (LogErr meth data_id info)
  then show ?thesis using assms by (auto simp: log_err_def)
qed

lemma run_errors: "run ts cs t = Inr t' \<Longrightarrow> errors t' = errors t @ logged cs"
proof (induction cs arbitrary: t)
  case Nil
  then show ?case by simp
next
  case (Cons c cs)
  then obtain t1 where t1: "step ts c t = Inr t1" "run ts cs t1 = Inr t'"
    by (auto split: sum.splits)
  from step_errors [OF t1(1)] Cons.IH [OF t1(2)]
  show ?case using logged_append [of "[c]" cs] by simp
qed


lemma run_append:
  "run ts (cs @ ds) t = (case run ts cs t of Inl err \<Rightarrow> Inl err | Inr t1 \<Rightarrow> run ts ds t1)"
  by (induction cs arbitrary: t) (auto split: sum.splits)

lemma closed_kept_by_run:
  "registry_ok (events t) \<Longrightarrow> run ts cs t = Inr t' \<Longrightarrow>
   map_of (events t) k = Some e \<Longrightarrow> end_time e = Some x \<Longrightarrow>
   map_of (events t') k = Some e \<or>
   (\<exists>cs1 header clk cs2 t1. cs = cs1 @ PrintSummary header clk # cs2 \<and>
      run ts (cs1 @ [PrintSummary header clk]) t = Inr t1 \<and> events t1 = [])"
proof (induction cs arbitrary: t)
  case Nil
  then show ?case by simp
next
  case (Cons c cs)
  then obtain t1 where t1: "step ts c t = Inr t1" "run ts cs t1 = Inr t'"
    by (auto split: sum.splits)
  have ok1: "registry_ok (events t1)" using step_registry_ok [OF Cons.prems(1) t1(1)] by simp
  from closed_kept_by_step [OF Cons.prems(1) t1(1) Cons.prems(3,4)]
  show ?case
  proof
    assume kept: "map_of (events t1) k = Some e"
    from Cons.IH [OF ok1 t1(2) kept Cons.prems(4)]
    show ?thesis
    proof
      assume "map_of (events t') k = Some e"
      then show ?thesis by simp
    next
      assume "\<exists>cs1 header clk cs2 t2. cs = cs1 @ PrintSummary header clk # cs2 \<and>
        run ts (cs1 @ [PrintSummary header clk]) t1 = Inr t2 \<and> events t2 = []"
      then obtain cs1 header clk cs2 t2 where
        d: "cs = cs1 @ PrintSummary header clk # cs2"
          "run ts (cs1 @ [PrintSummary header clk]) t1 = Inr t2" "events t2 = []"
        by blast
      have "c # cs = (c # cs1) @ PrintSummary header clk # cs2" using d(1) by simp
      moreover have "run ts ((c # cs1) @ [PrintSummary header clk]) t = Inr t2"
        using t1(1) d(2) by simp
      ultimately show ?thesis using d(3) by blast
    qed
  next
    assume "\<exists>header clk. c = PrintSummary header clk \<and> events t1 = []"
    then obtain header clk where d: "c = PrintSummary header clk" "events t1 = []" by blast
    have "c # cs = [] @ PrintSummary header clk # cs" using d(1) by simp
    moreover have "run ts ([] @ [PrintSummary header clk]) t = Inr t1" using t1(1) d(1) by simp
    ultimately show ?thesis using d(2) by blast
  qed
qed

lemma registry_ok_map_of_uid:
  assumes "registry_ok evs" "map_of evs k = Some e"
  shows "uid e = k"
  using assms map_of_SomeD [OF assms(2)] by (auto simp: registry_ok_def)

lemma registry_ok_all_keys:
  assumes "registry_ok evs" "i \<in> set [1..int (length evs)]"
  shows "\<exists>e. map_of evs i = Some e"
proof -
  have "1 \<le> i" "i \<le> int (length evs)" using assms(2) by simp_all
  then have "nat (i - 1) < length evs" "int (nat (i - 1)) + 1 = i" by simp_all
  then show ?thesis using registry_ok_lookup [OF assms(1), of "nat (i - 1)"] by simp
qed

lemma run_stack_ok:
  "well_nested cs d \<Longrightarrow> registry_ok (events t) \<Longrightarrow> open_hrchys (events t) = [1..int d] \<Longrightarrow>
   \<exists>t'. run ts cs t = Inr t' \<and> registry_ok (events t') \<and>
     map (\<lambda>p. hrchy (snd p)) (events t') = map (\<lambda>p. hrchy (snd p)) (events t) @ true_depths cs d"
proof -
  assume a: "well_nested cs d" "registry_ok (events t)" "open_hrchys (events t) = [1..int d]"
  from run_stack [OF a] obtain t' where t': "run ts cs t = Inr t'"
    "map (\<lambda>p. hrchy (snd p)) (events t') = map (\<lambda>p. hrchy (snd p)) (events t) @ true_depths cs d"
    by blast
  then show ?thesis using run_registry_ok [OF a(2) t'(1)] by blast
qed

lemma example_two_open_ok: "registry_ok (events example_two_open)"
  by (simp add: registry_ok_def example_two_open_def ProgramTimer_init_def Event_init_def
      Event_end_def upto_rec1)

lemma example_two_open_open: "\<exists>p \<in> set (events example_two_open). is_open (snd p)"
  by (simp add: example_two_open_def ProgramTimer_init_def Event_init_def is_open_def)

lemma example_last_closed_ok: "registry_ok (events example_last_closed)"
  by (simp add: registry_ok_def example_last_closed_def ProgramTimer_init_def Event_init_def
      Event_end_def upto_rec1)

lemma example_last_closed_open: "\<exists>p \<in> set (events example_last_closed). is_open (snd p)"
  by (simp add: example_last_closed_def ProgramTimer_init_def Event_init_def is_open_def)


lemmas run_defs = start_def ProgramTimer_end_def prior_open_event_id_def event_count_def
  ProgramTimer_init_def Let_def print_def Event_init_def Event_end_def is_open_def log_err_def
  print_summary_def errors_were_logged_def upto_rec1

section \<open>The claims\<close>

subsection \<open>C1: hrchy is the nesting depth\<close>

text \<open>
  C1. On a fresh timer, every well-nested sequence of \<^verbatim>\<open>start\<close>/\<^verbatim>\<open>end\<close> calls runs without an
  exception, the spans it creates have the keys \<open>1..n\<close> in creation order, and the \<open>hrchy\<close>
  of each span is its nesting depth in the call sequence: one more than the number of
  spans started before it that were still unmatched when it was started.
\<close>

theorem hrchy_is_nesting_depth:
  assumes "well_nested cs 0"
  shows "\<exists>t. run ts cs (ProgramTimer_init us ue) = Inr t \<and>
           map fst (events t) = [1..int (length (true_depths cs 0))] \<and>
           map (\<lambda>p. hrchy (snd p)) (events t) = true_depths cs 0"
proof -
  have "open_hrchys (events (ProgramTimer_init us ue :: 'a ProgramTimer)) = [1..int 0]"
    by (simp add: open_hrchys_def ProgramTimer_init_def)
  from run_stack_ok [OF assms registry_ok_init this, of ts] obtain t where
    t: "run ts cs (ProgramTimer_init us ue) = Inr t" "registry_ok (events t)"
      "map (\<lambda>p. hrchy (snd p)) (events t) = true_depths cs 0"
    by (auto simp: ProgramTimer_init_def)
  have "length (events t) = length (true_depths cs 0)" using t(3) by (metis length_map)
  then have "map fst (events t) = [1..int (length (true_depths cs 0))]"
    using t(2) by (simp add: registry_ok_def)
  then show ?thesis using t by blast
qed

theorem hrchy_is_nesting_depth_witness:
  "well_nested example_nested 0 \<and>
   (\<exists>t. run example_to_string example_nested (ProgramTimer_init True False) = Inr t \<and>
      map fst (events t) = [1, 2, 3] \<and> map (\<lambda>p. hrchy (snd p)) (events t) = [1, 2, 2])"
proof -
  have h: "well_nested example_nested 0" by (simp add: example_nested_def)
  show ?thesis
    using h hrchy_is_nesting_depth [OF h, of example_to_string True False]
    by (simp add: example_nested_def upto_rec1)
qed

subsection \<open>C2: end fails exactly when nothing is open\<close>

text \<open>
  C2. On a registry with keys \<open>1..n\<close> and matching uids, \<^verbatim>\<open>end()\<close> raises its exception if and
  only if no span is open, and it raises no other exception. When some span is open, it
  returns, and the span it closes is the open span with the largest key: afterwards that
  key holds the same span with its end time set to the clock reading of the call, so the
  span is no longer open, every other key holds what it held before, and the keys are the
  same.
\<close>

theorem end_fails_iff_nothing_open:
  assumes "registry_ok (events t)"
  shows "(ProgramTimer_end now t = Inl NoPriorOpenEvents \<longleftrightarrow>
            (\<forall>p \<in> set (events t). \<not> is_open (snd p))) \<and>
         (\<forall>err. ProgramTimer_end now t = Inl err \<longrightarrow> err = NoPriorOpenEvents) \<and>
         ((\<exists>p \<in> set (events t). is_open (snd p)) \<longrightarrow>
            (\<exists>k e t'. ProgramTimer_end now t = Inr t' \<and>
               map_of (events t) k = Some e \<and> is_open e \<and>
               (\<forall>k' e'. map_of (events t) k' = Some e' \<and> is_open e' \<longrightarrow> k' \<le> k) \<and>
               events t' = AList.update k (Event_end now e) (events t) \<and>
               (\<exists>e'. map_of (events t') k = Some e' \<and> \<not> is_open e' \<and>
                  end_time e' = Some now \<and> e' = e\<lparr>end_time := Some now\<rparr>) \<and>
               (\<forall>k'. k' \<noteq> k \<longrightarrow> map_of (events t') k' = map_of (events t) k') \<and>
               map fst (events t') = map fst (events t)))"
proof (cases "\<exists>p \<in> set (events t). is_open (snd p)")
  case True
  from end_closes_largest_fields [OF assms True, of now] obtain k e t' where
    r: "ProgramTimer_end now t = Inr t'" "map_of (events t) k = Some e" "is_open e"
      "\<forall>k' e'. map_of (events t) k' = Some e' \<and> is_open e' \<longrightarrow> k' \<le> k"
      "events t' = AList.update k (e\<lparr>end_time := Some now\<rparr>) (events t)"
      "map_of (events t') k = Some (e\<lparr>end_time := Some now\<rparr>)"
      "\<forall>k'. k' \<noteq> k \<longrightarrow> map_of (events t') k' = map_of (events t) k'"
      "map fst (events t') = map fst (events t)"
    by blast
  have cl: "\<not> is_open (e\<lparr>end_time := Some now\<rparr>)" "end_time (e\<lparr>end_time := Some now\<rparr>) = Some now"
    by (simp_all add: is_open_def)
  have up: "events t' = AList.update k (Event_end now e) (events t)"
    using r(5) by (simp add: Event_end_def)
  have third: "\<exists>k e t'. ProgramTimer_end now t = Inr t' \<and>
               map_of (events t) k = Some e \<and> is_open e \<and>
               (\<forall>k' e'. map_of (events t) k' = Some e' \<and> is_open e' \<longrightarrow> k' \<le> k) \<and>
               events t' = AList.update k (Event_end now e) (events t) \<and>
               (\<exists>e'. map_of (events t') k = Some e' \<and> \<not> is_open e' \<and>
                  end_time e' = Some now \<and> e' = e\<lparr>end_time := Some now\<rparr>) \<and>
               (\<forall>k'. k' \<noteq> k \<longrightarrow> map_of (events t') k' = map_of (events t) k') \<and>
               map fst (events t') = map fst (events t)"
    using r(1,2,3,4,6,7,8) up cl by blast
  have "ProgramTimer_end now t \<noteq> Inl NoPriorOpenEvents" using r(1) by simp
  moreover have "\<forall>err. ProgramTimer_end now t = Inl err \<longrightarrow> err = NoPriorOpenEvents"
    using r(1) by simp
  ultimately show ?thesis using True third by blast
next
  case False
  then have "last_open (events t) = None" using last_open_None [of "events t"] by simp
  then have "ProgramTimer_end now t = Inl NoPriorOpenEvents" using end_none_open [OF assms] by simp
  then show ?thesis using False by simp
qed

theorem end_fails_iff_nothing_open_witness:
  "registry_ok (events example_two_open) \<and>
   (\<exists>p \<in> set (events example_two_open). is_open (snd p)) \<and>
   map (\<lambda>p. end_time (snd p)) (events example_two_open) = [None, None, Some 3] \<and>
   ProgramTimer_end 5 example_two_open \<noteq> Inl NoPriorOpenEvents \<and>
   (\<exists>t'. ProgramTimer_end 5 example_two_open = Inr t' \<and>
      map fst (events t') = [1, 2, 3] \<and>
      map (\<lambda>p. end_time (snd p)) (events t') = [None, Some 5, Some 3] \<and>
      map (\<lambda>p. is_open (snd p)) (events t') = [True, False, False]) \<and>
   registry_ok (events (ProgramTimer_init True True :: string ProgramTimer)) \<and>
   ProgramTimer_end 5 (ProgramTimer_init True True :: string ProgramTimer) = Inl NoPriorOpenEvents"
proof -
  note th = end_fails_iff_nothing_open [OF example_two_open_ok, of 5]
  have ok0: "registry_ok (events (ProgramTimer_init True True :: string ProgramTimer))"
    by (rule registry_ok_init)
  have e0: "ProgramTimer_end 5 (ProgramTimer_init True True :: string ProgramTimer) = Inl NoPriorOpenEvents"
    using end_fails_iff_nothing_open [OF ok0, of 5] by (simp add: ProgramTimer_init_def)
  have ne: "ProgramTimer_end 5 example_two_open \<noteq> Inl NoPriorOpenEvents"
    using th example_two_open_open by blast
  have evs: "events example_two_open =
      [(1, Event_init 0 ''outer'' 1 1 None), (2, Event_init 1 ''inner'' 2 2 (Some 1)),
       (3, Event_end 3 (Event_init 2 ''leaf'' 3 3 (Some 2)))]"
    by (simp add: example_two_open_def ProgramTimer_init_def)
  from th example_two_open_open obtain k e t' where
    r: "ProgramTimer_end 5 example_two_open = Inr t'"
      "map_of (events example_two_open) k = Some e" "is_open e"
      "\<forall>k' e'. map_of (events example_two_open) k' = Some e' \<and> is_open e' \<longrightarrow> k' \<le> k"
      "events t' = AList.update k (Event_end 5 e) (events example_two_open)"
    by blast
  have "map_of (events example_two_open) 2 = Some (Event_init 1 ''inner'' 2 2 (Some 1))"
    "is_open (Event_init 1 ''inner'' 2 2 (Some 1))"
    by (simp_all add: evs)
  then have "2 \<le> k" using r(4) by blast
  moreover have "k \<noteq> 3" using r(2,3) by (auto simp: evs)
  moreover have "k = 1 \<or> k = 2 \<or> k = 3" using r(2) by (auto simp: evs split: if_splits)
  ultimately have k: "k = 2" by simp
  then have e: "e = Event_init 1 ''inner'' 2 2 (Some 1)" using r(2) by (simp add: evs)
  have "events t' =
      [(1, Event_init 0 ''outer'' 1 1 None), (2, Event_end 5 (Event_init 1 ''inner'' 2 2 (Some 1))),
       (3, Event_end 3 (Event_init 2 ''leaf'' 3 3 (Some 2)))]"
    using r(5) k e by (simp add: evs)
  then have "map fst (events t') = [1, 2, 3] \<and>
      map (\<lambda>p. end_time (snd p)) (events t') = [None, Some 5, Some 3] \<and>
      map (\<lambda>p. is_open (snd p)) (events t') = [True, False, False]"
    by (simp add: Event_init_def Event_end_def is_open_def)
  moreover have "map (\<lambda>p. end_time (snd p)) (events example_two_open) = [None, None, Some 3]"
    by (simp add: evs Event_init_def Event_end_def)
  ultimately show ?thesis
    using example_two_open_ok example_two_open_open ne r(1) ok0 e0 by simp
qed

subsection \<open>C3: start assigns the next id\<close>

text \<open>
  C3 (as the code has it). On a registry with keys \<open>1..n\<close> and matching uids, \<^verbatim>\<open>start(name)\<close>
  creates an open span with that name whose uid is the registry size plus one, inserts it
  under that key after the existing entries, and hands \<^verbatim>\<open>None\<close> back to the caller. The
  second theorem instantiates this on a fresh timer; the third shows, on the same call,
  that the value handed back is not the new id.
\<close>

theorem start_assigns_next_id:
  assumes "registry_ok (events t)"
  shows "\<exists>t' e. start nm now t = Inr (PyNone, t') \<and>
           events t' = events t @ [(event_count t + 1, e)] \<and>
           map_of (events t') (event_count t + 1) = Some e \<and>
           event_count t' = event_count t + 1 \<and>
           uid e = event_count t + 1 \<and> name e = nm \<and> start_time e = now \<and> is_open e"
proof -
  from start_ok [OF assms, of nm now] obtain t' h where
    t': "start nm now t = Inr (PyNone, t')"
      "events t' = events t @
         [(event_count t + 1, Event_init now nm (event_count t + 1) h (last_open (events t)))]"
    by blast
  have "event_count t + 1 \<notin> fst ` set (events t)"
    using registry_ok_fresh [OF assms] by (simp add: event_count_def)
  then have "map_of (events t) (event_count t + 1) = None"
    by (simp add: map_of_eq_None_iff)
  then have "map_of (events t') (event_count t + 1) =
      Some (Event_init now nm (event_count t + 1) h (last_open (events t)))"
    using t'(2) by (simp add: map_add_def)
  then show ?thesis using t' by (simp add: event_count_def)
qed

theorem start_assigns_next_id_witness:
  "registry_ok (events (ProgramTimer_init True True :: unit ProgramTimer)) \<and>
   (\<exists>t' e. start ''load'' 0 (ProgramTimer_init True True :: unit ProgramTimer) = Inr (PyNone, t') \<and>
      events t' = [(1, e)] \<and> map_of (events t') 1 = Some e \<and> event_count t' = 1 \<and>
      uid e = 1 \<and> name e = ''load'' \<and> start_time e = 0 \<and> is_open e)"
  using start_assigns_next_id [of "ProgramTimer_init True True :: unit ProgramTimer" "''load''" 0]
  by (simp add: registry_ok_def ProgramTimer_init_def event_count_def)

theorem start_returns_id_counterexample:
  "map_sum id fst (start ''load'' 0 (ProgramTimer_init True True :: unit ProgramTimer))
     \<noteq> Inr (PyInt (event_count (ProgramTimer_init True True :: unit ProgramTimer) + 1))"
  by (simp add: start_def prior_open_event_id_def event_count_def ProgramTimer_init_def Let_def)

subsection \<open>C4: a report clears the spans and keeps the error log\<close>

text \<open>
  C4. \<^verbatim>\<open>print_summary\<close> returns on every registry with keys \<open>1..n\<close>. Whenever it returns, the
  registry is empty, the error log is the same list of rows as before, the next
  \<^verbatim>\<open>start\<close> creates the span with key and uid 1, and the next report renders exactly the
  rows that were in the log before the first one.
\<close>

theorem print_summary_clears_spans_keeps_errors:
  "(registry_ok (events t) \<longrightarrow> (\<exists>t'. print_summary ts header clk t = Inr t')) \<and>
   (\<forall>t'. print_summary ts header clk t = Inr t' \<longrightarrow>
      events t' = [] \<and> errors t' = errors t \<and>
      (\<exists>t'' e. start nm now t' = Inr (PyNone, t'') \<and> events t'' = [(1, e)] \<and> uid e = 1) \<and>
      print_summary ts header' clk' t' =
        Inr (print (nl @ SECTION_DIVIDE @ nl
                    @ (case header' of None \<Rightarrow> default_header t | Some h \<Rightarrow> h) @ nl @ nl
                    @ (if errors t = [] then []
                       else SECTION_DIVIDE @ nl @ ''Exceptions'' @ nl @ nl @ ts (errors t))
                    @ nl @ SECTION_DIVIDE @ nl) t'))"
proof (intro conjI allI impI)
  assume "registry_ok (events t)"
  then show "\<exists>t'. print_summary ts header clk t = Inr t'"
    using print_summary_ok [of t ts header clk] by simp
next
  fix t' assume r: "print_summary ts header clk t = Inr t'"
  from print_summary_result [OF r]
  have ev: "events t' = []" and er: "errors t' = errors t"
    and dh: "default_header t' = default_header t" by simp_all
  show "events t' = []" by (rule ev)
  show "errors t' = errors t" by (rule er)
  have ok: "registry_ok (events t')" using ev by (simp add: registry_ok_def)
  have "last_open (events t') = None" using ev by (simp add: last_open_def)
  from start_none_open [OF ok this, of nm now]
  show "\<exists>t'' e. start nm now t' = Inr (PyNone, t'') \<and> events t'' = [(1, e)] \<and> uid e = 1"
    using ev by (auto simp: event_count_def)
  have tt: "t'\<lparr>events := []\<rparr> = t'" using ev by simp
  have "print_summary ts header' clk' t' =
        Inr (print (nl @ SECTION_DIVIDE @ nl
                    @ (case header' of None \<Rightarrow> default_header t' | Some h \<Rightarrow> h) @ nl @ nl
                    @ (if errors t' = [] then []
                       else SECTION_DIVIDE @ nl @ ''Exceptions'' @ nl @ nl @ ts (errors t'))
                    @ nl @ SECTION_DIVIDE @ nl) (t'\<lparr>events := []\<rparr>))"
    using print_summary_ok [OF ok, of ts header' clk'] ev by simp
  then show "print_summary ts header' clk' t' =
        Inr (print (nl @ SECTION_DIVIDE @ nl
                    @ (case header' of None \<Rightarrow> default_header t | Some h \<Rightarrow> h) @ nl @ nl
                    @ (if errors t = [] then []
                       else SECTION_DIVIDE @ nl @ ''Exceptions'' @ nl @ nl @ ts (errors t))
                    @ nl @ SECTION_DIVIDE @ nl) t')"
    by (simp only: tt er dh)
qed

theorem print_summary_clears_spans_keeps_errors_witness:
  "registry_ok (events example_last_closed) \<and>
   (\<exists>t'. print_summary example_to_string (Some ''Run'') example_clock example_last_closed = Inr t' \<and>
      events t' = [] \<and> errors t' = [(''parse'', ''row42'', ''bad id'')] \<and>
      (\<exists>t'' e. start ''next'' 10 t' = Inr (PyNone, t'') \<and> events t'' = [(1, e)] \<and> uid e = 1) \<and>
      print_summary example_to_string None example_clock t' =
        Inr (print (nl @ SECTION_DIVIDE @ nl @ ''Program Execution Summary'' @ nl @ nl
                    @ SECTION_DIVIDE @ nl @ ''Exceptions'' @ nl @ nl
                    @ ''parse row42 bad id'' @ nl
                    @ nl @ SECTION_DIVIDE @ nl) t'))"
proof -
  note th = print_summary_clears_spans_keeps_errors
    [of example_last_closed example_to_string "Some ''Run''" example_clock "''next''" 10 None
      example_clock]
  from th example_last_closed_ok obtain t' where
    t': "print_summary example_to_string (Some ''Run'') example_clock example_last_closed = Inr t'"
    by blast
  with th show ?thesis using example_last_closed_ok
    by (simp add: example_last_closed_def ProgramTimer_init_def example_to_string_def)
qed

subsection \<open>C5: end after a closed last span closes an earlier open span\<close>

text \<open>
  C5. When the span created last is already closed and an earlier span is still open,
  \<^verbatim>\<open>end()\<close> raises nothing: the scan passes over the closed spans and the call sets the end
  time of the open span with the largest key, which is smaller than the key of the last
  span.
\<close>

theorem end_skips_closed_spans:
  assumes "registry_ok (events t)" and "events t \<noteq> []"
    and "\<not> is_open (snd (last (events t)))"
    and "\<exists>p \<in> set (events t). is_open (snd p)"
  shows "\<exists>k e t'. ProgramTimer_end now t = Inr t' \<and>
           map_of (events t) k = Some e \<and> is_open e \<and> k < event_count t \<and>
           (\<forall>k' e'. map_of (events t) k' = Some e' \<and> is_open e' \<longrightarrow> k' \<le> k) \<and>
           events t' = AList.update k (Event_end now e) (events t) \<and>
           map_of (events t') k = Some (Event_end now e)"
proof -
  from end_closes_largest [OF assms(1,4), of now] obtain k e t' where
    r: "ProgramTimer_end now t = Inr t'" "map_of (events t) k = Some e" "is_open e"
      "\<forall>k' e'. map_of (events t) k' = Some e' \<and> is_open e' \<longrightarrow> k' \<le> k"
      "events t' = AList.update k (Event_end now e) (events t)"
      "map_of (events t') k = Some (Event_end now e)"
    by blast
  let ?n = "length (events t)"
  have n: "0 < ?n" using assms(2) by simp
  then have "map_of (events t) (int (?n - 1) + 1) = Some (snd (events t ! (?n - 1)))"
    using registry_ok_lookup [OF assms(1), of "?n - 1"] by simp
  then have "map_of (events t) (int ?n) = Some (snd (last (events t)))"
    using n assms(2) by (simp add: last_conv_nth of_nat_diff)
  then have "k \<noteq> int ?n" using r(2,3) assms(3) by auto
  moreover have "k \<le> int ?n" using registry_ok_key_range [OF assms(1) r(2)] by simp
  ultimately have "k < event_count t" by (simp add: event_count_def)
  then show ?thesis using r by blast
qed

theorem end_skips_closed_spans_witness:
  "registry_ok (events example_last_closed) \<and> events example_last_closed \<noteq> [] \<and>
   \<not> is_open (snd (last (events example_last_closed))) \<and>
   (\<exists>p \<in> set (events example_last_closed). is_open (snd p)) \<and>
   (\<exists>t'. ProgramTimer_end 7 example_last_closed = Inr t' \<and>
      map (\<lambda>p. end_time (snd p)) (events t') = [Some 7, Some 2])"
proof -
  have a: "events example_last_closed \<noteq> []"
    by (simp add: example_last_closed_def ProgramTimer_init_def)
  have b: "\<not> is_open (snd (last (events example_last_closed)))"
    by (simp add: example_last_closed_def ProgramTimer_init_def Event_init_def Event_end_def
        is_open_def)
  from end_skips_closed_spans [OF example_last_closed_ok a b example_last_closed_open, of 7]
  obtain k e t' where r: "ProgramTimer_end 7 example_last_closed = Inr t'"
    "map_of (events example_last_closed) k = Some e" "is_open e"
    "events t' = AList.update k (Event_end 7 e) (events example_last_closed)"
    by blast
  from r(2,3) have "k = 1 \<and> e = Event_init 0 ''outer'' 1 1 None"
    by (auto simp: example_last_closed_def ProgramTimer_init_def Event_init_def Event_end_def
        is_open_def split: if_splits)
  then have "map (\<lambda>p. end_time (snd p)) (events t') = [Some 7, Some 2]"
    using r(4)
    by (simp add: example_last_closed_def ProgramTimer_init_def Event_init_def Event_end_def)
  then show ?thesis using example_last_closed_ok a b example_last_closed_open r(1) by simp
qed

subsection \<open>C6: the lines of the report\<close>



subsection \<open>C8: an end time is set once\<close>

text \<open>
  C8. In a state reached from a fresh timer by any call sequence, take a span that is
  closed. After any further call sequence that returns, the registry holds the very same
  span under the same key (same end time, same other fields), unless a
  \<^verbatim>\<open>print_summary\<close> in between emptied the registry.
\<close>

theorem end_instant_set_once:
  assumes "run ts pre (ProgramTimer_init us ue) = Inr t"
    and "map_of (events t) k = Some e" and "end_time e = Some x"
    and "run ts cs t = Inr t'"
  shows "map_of (events t') k = Some e \<or>
         (\<exists>cs1 header clk cs2 t1. cs = cs1 @ PrintSummary header clk # cs2 \<and>
            run ts (cs1 @ [PrintSummary header clk]) t = Inr t1 \<and> events t1 = [])"
proof -
  have "registry_ok (events t)"
    using run_registry_ok [OF registry_ok_init assms(1)] by simp
  then show ?thesis using closed_kept_by_run assms(2,3,4) by blast
qed

theorem end_instant_set_once_witness:
  "\<exists>t e t'. run example_to_string example_closed_first (ProgramTimer_init True True) = Inr t \<and>
      map_of (events t) 1 = Some e \<and> end_time e = Some 1 \<and>
      run example_to_string example_later_calls t = Inr t' \<and>
      map_of (events t') 1 = Some e"
proof -
  have "\<exists>t t'. run example_to_string example_closed_first (ProgramTimer_init True True) = Inr t \<and>
      map_of (events t) 1 = Some (Event_end 1 (Event_init 0 ''A'' 1 1 None)) \<and>
      run example_to_string example_later_calls t = Inr t'"
    by (simp add: run_defs example_closed_first_def example_later_calls_def)
  then obtain t t' where
    r: "run example_to_string example_closed_first (ProgramTimer_init True True) = Inr t"
      "map_of (events t) 1 = Some (Event_end 1 (Event_init 0 ''A'' 1 1 None))"
      "run example_to_string example_later_calls t = Inr t'"
    by blast
  have c: "end_time (Event_end 1 (Event_init 0 ''A'' 1 1 None)) = Some 1"
    by (simp add: Event_end_def)
  have "\<not> (\<exists>cs1 header clk cs2. example_later_calls = cs1 @ PrintSummary header clk # cs2)"
  proof
    assume "\<exists>cs1 header clk cs2. example_later_calls = cs1 @ PrintSummary header clk # cs2"
    then obtain cs1 header clk cs2 where "example_later_calls = cs1 @ PrintSummary header clk # cs2"
      by blast
    then have "PrintSummary header clk \<in> set example_later_calls"
      by (metis in_set_conv_decomp)
    then show False by (simp add: example_later_calls_def)
  qed
  with end_instant_set_once [OF r(1,2) c r(3)]
  have "map_of (events t') 1 = Some (Event_end 1 (Event_init 0 ''A'' 1 1 None))" by blast
  with r c show ?thesis by blast
qed

subsection \<open>C9: log_err appends one row and the log is kept\<close>

text \<open>
  C9. \<^verbatim>\<open>log_err\<close> raises nothing, appends the row of its three arguments at the end of the
  error log and leaves the registry alone. After any call sequence that returns, the log
  is the log from before followed by the rows of the \<^verbatim>\<open>log_err\<close> calls of the sequence in
  call order; no other call changes the log.
\<close>

theorem log_err_appends_in_call_order:
  "errors (log_err method data_id info t) = errors t @ [(method, data_id, info)] \<and>
   events (log_err method data_id info t) = events t \<and>
   step ts (LogErr method data_id info) t = Inr (log_err method data_id info t) \<and>
   (\<forall>cs t'. run ts cs t = Inr t' \<longrightarrow> errors t' = errors t @ logged cs) \<and>
   (\<forall>c t'. step ts c t = Inr t' \<longrightarrow> (\<forall>method' data_id' info'. c \<noteq> LogErr method' data_id' info')
      \<longrightarrow> errors t' = errors t)"
proof (intro conjI allI impI)
  fix c t' assume "step ts c t = Inr t'" "\<forall>method' data_id' info'. c \<noteq> LogErr method' data_id' info'"
  then show "errors t' = errors t" using step_errors [of ts c t t'] by (cases c) auto
qed (simp_all add: log_err_def run_errors)

theorem log_err_appends_in_call_order_witness:
  "\<exists>t'. run example_to_string example_cycle (ProgramTimer_init True False) = Inr t' \<and>
      errors t' = [(''parse'', ''row42'', ''bad id''), (''_get_price'', ''abc'', ''price'')]"
proof -
  have "\<exists>t'. run example_to_string example_cycle (ProgramTimer_init True False) = Inr t'"
    by (simp add: run_defs example_cycle_def)
  then obtain t' where r: "run example_to_string example_cycle (ProgramTimer_init True False) = Inr t'"
    by blast
  from log_err_appends_in_call_order
    [of "''m''" "''x''" "''d''" "ProgramTimer_init True False" example_to_string]
  have "\<forall>cs t'. run example_to_string cs (ProgramTimer_init True False) = Inr t' \<longrightarrow>
      errors t' = errors (ProgramTimer_init True False :: string ProgramTimer) @ logged cs"
    by blast
  with r have "errors t' = errors (ProgramTimer_init True False :: string ProgramTimer) @ logged example_cycle"
    by blast
  then have "errors t' = [(''parse'', ''row42'', ''bad id''), (''_get_price'', ''abc'', ''price'')]"
    by (simp add: ProgramTimer_init_def example_cycle_def)
  with r show ?thesis by blast
qed

subsection \<open>C10: the keys of the registry are 1..n\<close>

text \<open>
  C10. After any call sequence on a fresh timer that returns, the keys of the registry
  are \<open>1..n\<close>, with \<open>n\<close> the number of spans created since the last report, every key maps to
  the span with that uid, every key of the range is present, the descending scan
  raises no \<^verbatim>\<open>KeyError\<close>, and every further call that returns leaves a registry of the
  same shape.
\<close>

theorem registry_keys_contiguous:
  assumes "run ts cs (ProgramTimer_init us ue) = Inr t"
  shows "map fst (events t) = [1..int (spans_since_report cs 0)] \<and>
         event_count t = int (spans_since_report cs 0) \<and>
         (\<forall>k e. map_of (events t) k = Some e \<longrightarrow> uid e = k) \<and>
         (\<forall>i \<in> set [1..event_count t]. \<exists>e. map_of (events t) i = Some e) \<and>
         (\<exists>r. prior_open_event_id t = Inr r) \<and>
         (\<forall>c t'. step ts c t = Inr t' \<longrightarrow>
            map fst (events t') = [1..event_count t'] \<and>
            (\<forall>k e. map_of (events t') k = Some e \<longrightarrow> uid e = k))"
proof -
  have r: "registry_ok (events t)" "length (events t) = spans_since_report cs 0"
    using run_registry_ok [OF registry_ok_init assms] by (simp_all add: ProgramTimer_init_def)
  have a: "map fst (events t) = [1..int (spans_since_report cs 0)]"
    using r by (simp add: registry_ok_def)
  have b: "event_count t = int (spans_since_report cs 0)" using r(2) by (simp add: event_count_def)
  have c: "\<forall>k e. map_of (events t) k = Some e \<longrightarrow> uid e = k"
    using registry_ok_map_of_uid [OF r(1)] by blast
  have d: "\<forall>i \<in> set [1..event_count t]. \<exists>e. map_of (events t) i = Some e"
    using registry_ok_all_keys [OF r(1)] by (simp add: event_count_def)
  have e: "\<exists>r. prior_open_event_id t = Inr r" using prior_open_event_id_ok [OF r(1)] by simp
  have f: "map fst (events t') = [1..event_count t'] \<and>
            (\<forall>k e. map_of (events t') k = Some e \<longrightarrow> uid e = k)" if "step ts c t = Inr t'" for c t'
  proof -
    have "registry_ok (events t')" using step_registry_ok [OF r(1) that] by simp
    then show ?thesis using registry_ok_map_of_uid [of "events t'"]
      by (auto simp: registry_ok_def event_count_def)
  qed
  show ?thesis using a b c d e f by blast
qed

theorem registry_keys_contiguous_witness:
  "\<exists>t. run example_to_string example_cycle (ProgramTimer_init True False) = Inr t \<and>
      map fst (events t) = [1, 2] \<and> event_count t = 2 \<and>
      (\<forall>k e. map_of (events t) k = Some e \<longrightarrow> uid e = k) \<and>
      (\<exists>r. prior_open_event_id t = Inr r)"
proof -
  have "\<exists>t. run example_to_string example_cycle (ProgramTimer_init True False) = Inr t"
    by (simp add: run_defs example_cycle_def)
  then obtain t where r: "run example_to_string example_cycle (ProgramTimer_init True False) = Inr t"
    by blast
  from registry_keys_contiguous [OF r]
  have "map fst (events t) = [1..int (spans_since_report example_cycle 0)]"
    "event_count t = int (spans_since_report example_cycle 0)"
    "\<forall>k e. map_of (events t) k = Some e \<longrightarrow> uid e = k"
    "\<exists>r. prior_open_event_id t = Inr r"
    by blast+
  then have "map fst (events t) = [1, 2] \<and> event_count t = 2 \<and>
      (\<forall>k e. map_of (events t) k = Some e \<longrightarrow> uid e = k) \<and>
      (\<exists>r. prior_open_event_id t = Inr r)"
    by (simp add: example_cycle_def upto_rec1)
  with r show ?thesis by auto
qed

end
